theory Spec2Isabelle
  imports Complex_Main "HOL-Library.Multiset"
begin

section \<open>Model of the program\<close>

text \<open>
  The repository is a Node.js command line tool (\<^verbatim>\<open>index.js\<close> and the worker script
  \<^verbatim>\<open>process_analyze_files.js\<close>) that counts three-word sequences in text. JavaScript
  arrays are lists, JavaScript integers that the code only counts with are \<open>int\<close> or
  \<open>nat\<close>, a \<^verbatim>\<open>Map\<close> is an association list in insertion order with distinct keys, and
  every \<^verbatim>\<open>throw\<close> or failed read is a value of the type \<open>error\<close>.
\<close>

subsection \<open>Arrays and the work partitioner\<close>

text \<open>\<^verbatim>\<open>Math.ceil\<close> on a quotient of two integers, computed exactly.\<close>

definition Math_ceil :: "rat \<Rightarrow> int" where
  "Math_ceil x = \<lceil>x\<rceil>"

text \<open>
  \<^verbatim>\<open>Array.prototype.slice(start, end)\<close>: a negative index counts from the end, and both
  indices are clamped to the array.
\<close>

definition slice :: "'a list \<Rightarrow> int \<Rightarrow> int \<Rightarrow> 'a list" where
  "slice xs start fin =
     (let len = int (length xs);
          k = (if start < 0 then max (len + start) 0 else min start len);
          final = (if fin < 0 then max (len + fin) 0 else min fin len)
      in take (nat (final - k)) (drop (nat k) xs))"

text \<open>
  The loop of \<^verbatim>\<open>splitArrayToNChunks\<close>, with its variables \<^verbatim>\<open>i\<close>, \<^verbatim>\<open>arrPos\<close> and
  \<^verbatim>\<open>splitArray\<close> as arguments. The body pushes an empty chunk and then overwrites slot
  \<^verbatim>\<open>i\<close>, which is always the slot just pushed. The worker count \<open>n\<close> is an integer, as
  \<^verbatim>\<open>main\<close> passes it (the result of \<^verbatim>\<open>Math.min(Math.round(..), MAX_THREADS)\<close>); inside
  the loop \<open>n - i\<close> is positive, so the division is never by zero.
\<close>

function splitLoop :: "'a list \<Rightarrow> int \<Rightarrow> int \<Rightarrow> int \<Rightarrow> 'a list list \<Rightarrow> 'a list list" where
  "splitLoop array n i arrPos splitArray =
     (if i < n then
        (let splitArrayLength =
               Math_ceil (rat_of_int (int (length array) - arrPos) / rat_of_int (n - i));
             pushed = splitArray @ [[]];
             assigned = pushed[nat i := slice array arrPos (splitArrayLength + arrPos)]
         in splitLoop array n (i + 1) (arrPos + splitArrayLength) assigned)
      else splitArray)"
  by pat_completeness auto
termination
  by (relation "measure (\<lambda>(array, n, i, arrPos, splitArray). nat (n - i))") auto

definition splitArrayToNChunks :: "'a list \<Rightarrow> int \<Rightarrow> 'a list list" where
  "splitArrayToNChunks array n = splitLoop array n 0 0 []"

text \<open>Ceiling division on integers, used to reason about \<open>Math_ceil\<close> of a quotient.\<close>

definition cdiv :: "int \<Rightarrow> int \<Rightarrow> int" where
  "cdiv a b = - ((- a) div b)"

subsection \<open>Strings and the normalizer\<close>

text \<open>
  A JavaScript string is modelled as a \<open>string\<close> whose characters stand for the code points
  U+0000 to U+00FF, one \<open>char\<close> per code point and per UTF-16 code unit. On this range the
  character classes of the regular expressions and the case mapping of \<^verbatim>\<open>toLowerCase\<close>
  are the following tables.
\<close>

text \<open>
  The class \<^verbatim>\<open>\s\<close>, which is also what \<^verbatim>\<open>trim\<close> strips: tab, line feed, vertical tab,
  form feed, carriage return, space and no-break space.
\<close>

definition isSpace :: "char \<Rightarrow> bool" where
  "isSpace c = (of_char c \<in> {9, 10, 11, 12, 13, 32, 160 :: nat})"

text \<open>
  The class \<^verbatim>\<open>\p{Letter}\<close>: the ASCII letters, the ordinal indicators U+00AA and U+00BA, the
  micro sign U+00B5, and U+00C0 to U+00FF without the multiplication and division signs.
\<close>

definition isLetter :: "char \<Rightarrow> bool" where
  "isLetter c =
     (let n = (of_char c :: nat)
      in (65 \<le> n \<and> n \<le> 90) \<or> (97 \<le> n \<and> n \<le> 122) \<or> n = 170 \<or> n = 181 \<or> n = 186 \<or>
         (192 \<le> n \<and> n \<le> 214) \<or> (216 \<le> n \<and> n \<le> 246) \<or> (248 \<le> n \<and> n \<le> 255))"

text \<open>The class \<^verbatim>\<open>\p{Mark}\<close> has no member below U+0300.\<close>

definition isMark :: "char \<Rightarrow> bool" where
  "isMark c = False"

text \<open>
  \<^verbatim>\<open>String.prototype.toLowerCase\<close>: the upper case letters of ASCII and of U+00C0 to U+00DE
  (without the multiplication sign) move up by 32; every other character stays.
\<close>

definition lowerChar :: "char \<Rightarrow> char" where
  "lowerChar c =
     (let n = (of_char c :: nat)
      in if (65 \<le> n \<and> n \<le> 90) \<or> (192 \<le> n \<and> n \<le> 214) \<or> (216 \<le> n \<and> n \<le> 222)
         then char_of (n + 32) else c)"

definition toLowerCase :: "string \<Rightarrow> string" where
  "toLowerCase text = map lowerChar text"

text \<open>\<^verbatim>\<open>.replace(/[\n]/g, ' ')\<close>\<close>

definition replaceNewlines :: "string \<Rightarrow> string" where
  "replaceNewlines text = map (\<lambda>c. if c = CHR 0x0A then CHR '' '' else c) text"

text \<open>
  \<^verbatim>\<open>.replace(/[^\p{Letter}\p{Mark}\s ' -]/gu, " ")\<close>: the class lists letters, marks,
  white space, the space, the apostrophe and (last in the class, hence literal) the hyphen.
\<close>

definition keptChar :: "char \<Rightarrow> bool" where
  "keptChar c = (isLetter c \<or> isMark c \<or> isSpace c \<or> c = CHR '' '' \<or> c = CHR 0x27 \<or> c = CHR ''-'')"

definition replaceOther :: "string \<Rightarrow> string" where
  "replaceOther text = map (\<lambda>c. if keptChar c then c else CHR '' '') text"

text \<open>
  \<^verbatim>\<open>.replace(/\s+'\s+/g, ' ')\<close>: the matches are found from left to right and do not
  overlap. A match starts at a white space character whose maximal run of white space is
  followed by an apostrophe and at least one more white space character; it extends over
  the whole second run, and the search goes on behind it. (The first \<^verbatim>\<open>\s+\<close> cannot give
  characters back to let the match succeed, since the apostrophe is not white space.)
\<close>

function replaceApostrophes :: "string \<Rightarrow> string" where
  "replaceApostrophes [] = []"
| "replaceApostrophes (c # cs) =
     (if isSpace c then
        (case dropWhile isSpace cs of
           q # s # r \<Rightarrow>
             if q = CHR 0x27 \<and> isSpace s
             then CHR '' '' # replaceApostrophes (dropWhile isSpace r)
             else c # replaceApostrophes cs
         | _ \<Rightarrow> c # replaceApostrophes cs)
      else c # replaceApostrophes cs)"
  by pat_completeness auto
termination
proof (relation "measure length")
  fix c q s :: char and cs r x :: string
  assume "dropWhile isSpace cs = q # x" and "x = s # r"
  then have "length (q # s # r) \<le> length cs"
    using length_dropWhile_le[of isSpace cs] by simp
  moreover have "length (dropWhile isSpace r) \<le> length r"
    by (rule length_dropWhile_le)
  ultimately show "(dropWhile isSpace r, c # cs) \<in> measure length" by simp
qed simp_all

text \<open>\<^verbatim>\<open>.replace(/\s+/g, ' ')\<close>: every maximal run of white space becomes one space.\<close>

function replaceSpaces :: "string \<Rightarrow> string" where
  "replaceSpaces [] = []"
| "replaceSpaces (c # cs) =
     (if isSpace c then CHR '' '' # replaceSpaces (dropWhile isSpace cs)
      else c # replaceSpaces cs)"
  by pat_completeness auto
termination
proof (relation "measure length")
  fix c :: char and cs :: string
  have "length (dropWhile isSpace cs) \<le> length cs" by (rule length_dropWhile_le)
  then show "(dropWhile isSpace cs, c # cs) \<in> measure length" by simp
qed simp_all

text \<open>\<^verbatim>\<open>String.prototype.trim\<close>\<close>

definition trim :: "string \<Rightarrow> string" where
  "trim text = rev (dropWhile isSpace (rev (dropWhile isSpace text)))"

definition formatText :: "string \<Rightarrow> string" where
  "formatText text =
     trim (replaceSpaces (replaceApostrophes (replaceOther (replaceNewlines (toLowerCase text)))))"

text \<open>
  The invariant that the specification calls Normalized Text: lower case, no character
  other than a letter, a mark, an apostrophe, a hyphen or a space (so no line break), no
  white space at either end, no two spaces in a row, and no apostrophe standing alone
  between two white space characters.
\<close>

fun noDoubleSpace :: "string \<Rightarrow> bool" where
  "noDoubleSpace (a # b # r) = (\<not> (a = CHR '' '' \<and> b = CHR '' '') \<and> noDoubleSpace (b # r))"
| "noDoubleSpace _ = True"

fun noDanglingApostrophe :: "string \<Rightarrow> bool" where
  "noDanglingApostrophe (a # b # c # r) =
     (\<not> (isSpace a \<and> b = CHR 0x27 \<and> isSpace c) \<and> noDanglingApostrophe (b # c # r))"
| "noDanglingApostrophe _ = True"

definition tokenChar :: "char \<Rightarrow> bool" where
  "tokenChar c = (isLetter c \<or> isMark c \<or> c = CHR 0x27 \<or> c = CHR ''-'')"

definition okChar :: "char \<Rightarrow> bool" where
  "okChar c = (tokenChar c \<or> c = CHR '' '')"

definition normalizedText :: "string \<Rightarrow> bool" where
  "normalizedText x =
     (toLowerCase x = x \<and>
      list_all okChar x \<and>
      \<not> list_ex (\<lambda>c. c = CHR 0x0A) x \<and>
      (case x of [] \<Rightarrow> True | c # _ \<Rightarrow> \<not> isSpace c) \<and>
      (case rev x of [] \<Rightarrow> True | c # _ \<Rightarrow> \<not> isSpace c) \<and>
      noDoubleSpace x \<and>
      noDanglingApostrophe x)"

subsection \<open>The trigram counter and the ranker\<close>

text \<open>\<^verbatim>\<open>String.prototype.split(sep)\<close> for a separator of one character.\<close>

fun split :: "char \<Rightarrow> string \<Rightarrow> string list" where
  "split sep [] = [[]]"
| "split sep (c # cs) =
     (if c = sep then [] # split sep cs
      else (case split sep cs of w # ws \<Rightarrow> (c # w) # ws | [] \<Rightarrow> [[c]]))"

text \<open>\<^verbatim>\<open>Array.prototype.join(sep)\<close> on an array of strings.\<close>

fun join :: "string \<Rightarrow> string list \<Rightarrow> string" where
  "join sep [] = []"
| "join sep [x] = x"
| "join sep (x # y # ys) = x @ sep @ join sep (y # ys)"

text \<open>
  A \<^verbatim>\<open>Map\<close> is the list of its entries in insertion order. \<^verbatim>\<open>get\<close> is \<open>None\<close> where
  JavaScript gives \<^verbatim>\<open>undefined\<close>; \<^verbatim>\<open>set\<close> overwrites the value of a present key in place
  and appends an absent key.
\<close>

type_synonym ('k, 'v) jsmap = "('k \<times> 'v) list"

fun map_get :: "('k, 'v) jsmap \<Rightarrow> 'k \<Rightarrow> 'v option" where
  "map_get [] k = None"
| "map_get ((k', v) # m) k = (if k' = k then Some v else map_get m k)"

definition map_has :: "('k, 'v) jsmap \<Rightarrow> 'k \<Rightarrow> bool" where
  "map_has m k = (map_get m k \<noteq> None)"

fun map_set :: "('k, 'v) jsmap \<Rightarrow> 'k \<Rightarrow> 'v \<Rightarrow> ('k, 'v) jsmap" where
  "map_set [] k v = [(k, v)]"
| "map_set ((k', v') # m) k v = (if k' = k then (k, v) # m else (k', v') # map_set m k v)"

text \<open>
  The loop of \<^verbatim>\<open>generateSequenceMap\<close>; the \<^verbatim>\<open>break\<close> returns the map as it is. Where
  \<^verbatim>\<open>has\<close> holds, \<^verbatim>\<open>get\<close> yields the stored count; the \<open>None\<close> case under \<open>map_has\<close> cannot
  occur and is there only to make the case distinction complete.
\<close>

function sequenceLoop :: "string list \<Rightarrow> int \<Rightarrow> (string, nat) jsmap \<Rightarrow> (string, nat) jsmap" where
  "sequenceLoop textArray leftIndex sequenceMap =
     (if leftIndex < int (length textArray) then
        (let sequenceArray = slice textArray leftIndex (leftIndex + 3)
         in if length sequenceArray < 3 then sequenceMap
            else (let sequenceText = join '' '' sequenceArray
                  in if map_has sequenceMap sequenceText
                     then (case map_get sequenceMap sequenceText of
                             Some current \<Rightarrow>
                               sequenceLoop textArray (leftIndex + 1)
                                 (map_set sequenceMap sequenceText (current + 1))
                           | None \<Rightarrow> sequenceMap)
                     else sequenceLoop textArray (leftIndex + 1)
                            (map_set sequenceMap sequenceText 1)))
      else sequenceMap)"
  by pat_completeness auto
termination
  by (relation "measure (\<lambda>(textArray, leftIndex, sequenceMap). nat (int (length textArray) - leftIndex))")
     auto

definition generateSequenceMap :: "string \<Rightarrow> (string, nat) jsmap" where
  "generateSequenceMap text = sequenceLoop (split CHR '' '' text) 0 []"

text \<open>
  \<^verbatim>\<open>Array.prototype.sort(compare)\<close> is stable: an element moves in front of another one
  only where the comparator is positive for the pair in their original order. For a
  comparator that is a total preorder the result is the stable insertion sort.
\<close>

fun insertBy :: "('a \<Rightarrow> 'a \<Rightarrow> int) \<Rightarrow> 'a \<Rightarrow> 'a list \<Rightarrow> 'a list" where
  "insertBy compare x [] = [x]"
| "insertBy compare x (y # ys) =
     (if compare x y \<le> 0 then x # y # ys else y # insertBy compare x ys)"

definition sortBy :: "('a \<Rightarrow> 'a \<Rightarrow> int) \<Rightarrow> 'a list \<Rightarrow> 'a list" where
  "sortBy compare xs = foldr (insertBy compare) xs []"

text \<open>The comparator \<^verbatim>\<open>(a, b) => b[1] - a[1]\<close> of \<^verbatim>\<open>getTopSequences\<close>.\<close>

definition byCountDesc :: "(string \<times> nat) \<Rightarrow> (string \<times> nat) \<Rightarrow> int" where
  "byCountDesc a b = int (snd b) - int (snd a)"

definition getTopSequences :: "(string, nat) jsmap \<Rightarrow> (string \<times> nat) list" where
  "getTopSequences sequenceMap =
     sortBy byCountDesc (map (\<lambda>(key, value). (key, value)) sequenceMap)"

definition analyzeText :: "string \<Rightarrow> (string \<times> nat) list" where
  "analyzeText text = getTopSequences (generateSequenceMap text)"

subsection \<open>Files, the worker unit and the coordinator\<close>

text \<open>
  What the program throws: the usage error of \<^verbatim>\<open>main\<close>, and the rejection of
  \<^verbatim>\<open>fs.promises.readFile\<close> for the named path. The file system is a function from paths to
  contents, \<open>None\<close> where the read fails.
\<close>

datatype error = UsageError | ReadError string

type_synonym filesystem = "string \<Rightarrow> string option"

text \<open>\<^verbatim>\<open>String.prototype.endsWith\<close>\<close>

definition endsWith :: "string \<Rightarrow> string \<Rightarrow> bool" where
  "endsWith s t = (length t \<le> length s \<and> drop (length s - length t) s = t)"

text \<open>
  An entry of \<^verbatim>\<open>topSequences\<close>: its \<^verbatim>\<open>file\<close> (here \<open>source_file\<close>) is one path (or the word stdin), or the
  whole array of paths in \<^verbatim>\<open>processFilesAsOne\<close>.
\<close>

datatype unit_name = FileName string | FileList "string list"

record unit_result =
  source_file :: unit_name
  sequences :: "(string \<times> nat) list"

text \<open>The message a worker posts; its second field is called \<^verbatim>\<open>sequences\<close> in the source.\<close>

record worker_message =
  invalidFiles :: "string list"
  fileSequences :: "unit_result list"

text \<open>What the program prints, one constructor per \<^verbatim>\<open>console.log\<close> in the source.\<close>

datatype console_line =
    MaxThreadsWarning int rat
  | InvalidThreadsArgument
  | InvalidInput "string list"
  | TopSequencesHeader unit_name
  | SequenceLine nat string nat
  | NoSequencesFound

definition logSequences :: "unit_result list \<Rightarrow> console_line list" where
  "logSequences topSequences =
     concat (map (\<lambda>ts.
       if sequences ts \<noteq> []
       then TopSequencesHeader (source_file ts) #
            map (\<lambda>(index, (sequence, frequency)). SequenceLine (index + 1) sequence frequency)
              (enumerate 0 (slice (sequences ts) 0 100))
       else [NoSequencesFound]) topSequences)"

text \<open>
  \<^verbatim>\<open>processStdIn\<close>, on the lines that \<^verbatim>\<open>readline\<close> delivers: each line is normalized and
  appended behind one space, and the whole is trimmed.
\<close>

definition processStdIn :: "string list \<Rightarrow> string" where
  "processStdIn lines = trim (foldl (\<lambda>text line. text @ '' '' @ formatText line) [] lines)"

text \<open>The loop of \<^verbatim>\<open>processFilesAsOne\<close> over \<^verbatim>\<open>files\<close>, with \<^verbatim>\<open>text\<close> and \<^verbatim>\<open>invalidFiles\<close>.\<close>

fun filesAsOneLoop ::
  "filesystem \<Rightarrow> string list \<Rightarrow> string \<Rightarrow> string list \<Rightarrow> error + (string \<times> string list)" where
  "filesAsOneLoop fs [] text invalid = Inr (text, invalid)"
| "filesAsOneLoop fs (f # rest) text invalid =
     (if \<not> endsWith f ''.txt'' then filesAsOneLoop fs rest text (invalid @ [f])
      else (case fs f of
              None \<Rightarrow> Inl (ReadError f)
            | Some data \<Rightarrow> filesAsOneLoop fs rest (text @ '' '' @ formatText data) invalid))"

definition processFilesAsOne ::
  "filesystem \<Rightarrow> string list \<Rightarrow> console_line list \<times> (error + unit_result list)" where
  "processFilesAsOne fs paths =
     (case filesAsOneLoop fs paths [] [] of
        Inl e \<Rightarrow> ([], Inl e)
      | Inr (text, invalid) \<Rightarrow>
          (let analyzedText = analyzeText (trim text)
           in ((if invalid \<noteq> [] then [InvalidInput invalid] else []),
               Inr [\<lparr>source_file = FileList paths, sequences = analyzedText\<rparr>])))"

text \<open>
  The worker script: the loop of \<^verbatim>\<open>processAndAnalyzeFiles\<close> over \<^verbatim>\<open>workerData.files\<close>. The
  function posts its message at the end (\<open>Inr\<close>), or rejects with the error of the failed
  read (\<open>Inl\<close>).
\<close>

fun workerLoop ::
  "filesystem \<Rightarrow> string list \<Rightarrow> string list \<Rightarrow> unit_result list \<Rightarrow> error + worker_message" where
  "workerLoop fs [] invalid seqs = Inr \<lparr>invalidFiles = invalid, fileSequences = seqs\<rparr>"
| "workerLoop fs (f # rest) invalid seqs =
     (if \<not> endsWith f ''.txt'' then workerLoop fs rest (invalid @ [f]) seqs
      else (case fs f of
              None \<Rightarrow> Inl (ReadError f)
            | Some data \<Rightarrow>
                (let formattedText = formatText data
                 in workerLoop fs rest invalid
                      (seqs @ [\<lparr>source_file = FileName f, sequences = analyzeText formattedText\<rparr>]))))"

definition processAndAnalyzeFiles :: "filesystem \<Rightarrow> string list \<Rightarrow> error + worker_message" where
  "processAndAnalyzeFiles fs paths = workerLoop fs paths [] []"

text \<open>
  How a worker thread ends. The last lines of the worker script catch the rejection of
  \<^verbatim>\<open>processAndAnalyzeFiles\<close>, print the error with \<^verbatim>\<open>console.error\<close> and call
  \<^verbatim>\<open>process.exit(1)\<close>; inside a worker that call ends the worker thread with that exit
  code, not the process, and no message has been posted.
\<close>

datatype worker_end = Posted worker_message | Exited error int

definition workerScript :: "filesystem \<Rightarrow> string list \<Rightarrow> worker_end" where
  "workerScript fs paths =
     (case processAndAnalyzeFiles fs paths of
        Inr message \<Rightarrow> Posted message
      | Inl err \<Rightarrow> Exited err 1)"

text \<open>
  How an awaited promise can fail to give a value: it rejects with an error, or it never
  settles. A promise is a value of \<open>failure + 'a\<close>, with \<open>Inr\<close> the value it is fulfilled
  with.
\<close>

datatype failure = Rejected error | Pending

text \<open>
  \<^verbatim>\<open>createWorker\<close> resolves its promise on the event \<^verbatim>\<open>message\<close> and rejects it on the event
  \<^verbatim>\<open>error\<close>, which a worker emits for an uncaught exception; the worker script catches its
  rejection itself, so that event does not come. There is no listener for the event
  \<^verbatim>\<open>exit\<close>: when the worker ends without a message the promise never settles.
\<close>

definition createWorker :: "filesystem \<Rightarrow> string list \<Rightarrow> failure + worker_message" where
  "createWorker fs fileChunk =
     (case workerScript fs fileChunk of
        Posted data \<Rightarrow> Inr data
      | Exited err code \<Rightarrow> Inl Pending)"

text \<open>
  \<^verbatim>\<open>Promise.all\<close>: fulfilled, with the values in the order of the promises, when all of
  them are; rejected when one of them is (with the first rejection in the order of the
  list, where several reject); and never settled otherwise.
\<close>

fun promiseAll :: "(failure + 'a) list \<Rightarrow> failure + 'a list" where
  "promiseAll [] = Inr []"
| "promiseAll (p # ps) =
     (case p of
        Inl (Rejected e) \<Rightarrow> Inl (Rejected e)
      | Inl Pending \<Rightarrow>
          (case promiseAll ps of Inl (Rejected e) \<Rightarrow> Inl (Rejected e) | _ \<Rightarrow> Inl Pending)
      | Inr x \<Rightarrow> (case promiseAll ps of Inl f \<Rightarrow> Inl f | Inr xs \<Rightarrow> Inr (x # xs)))"

text \<open>
  \<^verbatim>\<open>processFilesInParallel\<close>: what it printed, and the promise it returns. Where the awaited
  \<^verbatim>\<open>Promise.all\<close> gives no value, the function goes no further.
\<close>

definition processFilesInParallel ::
  "filesystem \<Rightarrow> string list \<Rightarrow> int \<Rightarrow> console_line list \<times> (failure + unit_result list)" where
  "processFilesInParallel fs paths threadCount =
     (let fileChunks = splitArrayToNChunks paths threadCount;
          topSequencesPromises = map (createWorker fs) fileChunks
      in case promiseAll topSequencesPromises of
           Inl f \<Rightarrow> ([], Inl f)
         | Inr fileOutput \<Rightarrow>
             (let invalid = concat (map invalidFiles fileOutput);
                  topSequences = concat (map fileSequences fileOutput)
              in ((if invalid \<noteq> [] then [InvalidInput invalid] else []), Inr topSequences)))"

text \<open>
  Awaiting \<^verbatim>\<open>processFilesAsOne\<close>, which runs in the main thread: its failed read rejects.
\<close>

definition awaitFilesAsOne ::
  "filesystem \<Rightarrow> string list \<Rightarrow> console_line list \<times> (failure + unit_result list)" where
  "awaitFilesAsOne fs paths =
     (case processFilesAsOne fs paths of
        (printed, Inl e) \<Rightarrow> (printed, Inl (Rejected e))
      | (printed, Inr topSequences) \<Rightarrow> (printed, Inr topSequences))"

text \<open>
  The parsed command line: \<^verbatim>\<open>argv._\<close>, \<^verbatim>\<open>argv.files\<close> (absent, or an array) and
  \<^verbatim>\<open>argv.threads\<close> (absent, \<^verbatim>\<open>NaN\<close>, or a finite number).
\<close>

datatype threads_arg = Undefined | NaN | Number rat

record argv =
  argv_positional :: "string list"
  argv_files :: "string list option"
  argv_threads :: threads_arg

text \<open>\<^verbatim>\<open>!!argv.threads\<close>: \<^verbatim>\<open>undefined\<close>, \<^verbatim>\<open>NaN\<close> and zero are falsy.\<close>

fun truthy :: "threads_arg \<Rightarrow> bool" where
  "truthy Undefined = False"
| "truthy NaN = False"
| "truthy (Number x) = (x \<noteq> 0)"

fun Number_isNaN :: "threads_arg \<Rightarrow> bool" where
  "Number_isNaN NaN = True"
| "Number_isNaN _ = False"

text \<open>\<^verbatim>\<open>argv.threads > MAX_THREADS\<close>: false unless the left side is a number.\<close>

fun greaterThan :: "threads_arg \<Rightarrow> int \<Rightarrow> bool" where
  "greaterThan (Number x) m = (rat_of_int m < x)"
| "greaterThan _ m = False"

text \<open>\<^verbatim>\<open>Math.round\<close>: the nearest integer, a tie going up.\<close>

definition Math_round :: "rat \<Rightarrow> int" where
  "Math_round x = \<lfloor>x + 1 / 2\<rfloor>"

text \<open>The constant \<^verbatim>\<open>THREAD_COUNT\<close> of \<^verbatim>\<open>main\<close>.\<close>

definition THREAD_COUNT :: "threads_arg \<Rightarrow> int \<Rightarrow> int" where
  "THREAD_COUNT t MAX_THREADS =
     (if truthy t \<and> \<not> Number_isNaN t
      then (case t of Number x \<Rightarrow> min (Math_round x) MAX_THREADS | _ \<Rightarrow> 1)
      else 1)"

text \<open>
  \<^verbatim>\<open>main\<close>, given the file system, the lines on standard input, the parsed command line
  and \<^verbatim>\<open>os.cpus().length\<close>. The result is what was printed with \<^verbatim>\<open>console.log\<close> and the
  promise of \<^verbatim>\<open>main\<close>: rejected with the error thrown, never settled, or fulfilled after
  logging the list \<^verbatim>\<open>topSequences\<close>.
\<close>

definition main ::
  "filesystem \<Rightarrow> string list \<Rightarrow> argv \<Rightarrow> int \<Rightarrow> console_line list \<times> (failure + unit_result list)" where
  "main fs stdin a MAX_THREADS =
     (let warnings =
            (case argv_threads a of
               Number x \<Rightarrow> if greaterThan (Number x) MAX_THREADS
                            then [MaxThreadsWarning MAX_THREADS x] else []
             | _ \<Rightarrow> []) @
            (if Number_isNaN (argv_threads a) then [InvalidThreadsArgument] else []);
          threadCount = THREAD_COUNT (argv_threads a) MAX_THREADS
      in if argv_positional a \<noteq> [] \<and> argv_files a = None then (warnings, Inl (Rejected UsageError))
         else
           (let (printed, outcome) =
                  (case argv_files a of
                     Some paths \<Rightarrow>
                       if length paths > 0
                       then (if truthy (argv_threads a)
                             then processFilesInParallel fs paths threadCount
                             else awaitFilesAsOne fs paths)
                       else ([], Inr [\<lparr>source_file = FileName ''stdin'',
                                        sequences = analyzeText (processStdIn stdin)\<rparr>])
                   | None \<Rightarrow> ([], Inr [\<lparr>source_file = FileName ''stdin'',
                                          sequences = analyzeText (processStdIn stdin)\<rparr>]))
            in case outcome of
                 Inl f \<Rightarrow> (warnings @ printed, Inl f)
               | Inr topSequences \<Rightarrow>
                   (warnings @ printed @ logSequences topSequences, Inr topSequences)))"

text \<open>
  The three operating modes of the specification, and the branch of \<^verbatim>\<open>main\<close> that each
  one names: \<^verbatim>\<open>processFilesInParallel\<close> with the thread count, \<^verbatim>\<open>processFilesAsOne\<close>, and
  \<^verbatim>\<open>processStdIn\<close>. \<open>selectMode\<close> repeats the conditions of \<^verbatim>\<open>main\<close> in their order.
\<close>

datatype mode = MultiFileAsN int | SingleFileAsOne | Stream

definition selectMode :: "argv \<Rightarrow> int \<Rightarrow> error + mode" where
  "selectMode a MAX_THREADS =
     (if argv_positional a \<noteq> [] \<and> argv_files a = None then Inl UsageError
      else (case argv_files a of
              Some paths \<Rightarrow>
                if length paths > 0
                then (if truthy (argv_threads a)
                      then Inr (MultiFileAsN (THREAD_COUNT (argv_threads a) MAX_THREADS))
                      else Inr SingleFileAsOne)
                else Inr Stream
            | None \<Rightarrow> Inr Stream))"

text \<open>What \<^verbatim>\<open>main\<close> runs in each mode.\<close>

definition runMode ::
  "filesystem \<Rightarrow> string list \<Rightarrow> string list \<Rightarrow> mode \<Rightarrow> console_line list \<times> (failure + unit_result list)" where
  "runMode fs stdin paths m =
     (case m of
        MultiFileAsN n \<Rightarrow> processFilesInParallel fs paths n
      | SingleFileAsOne \<Rightarrow> awaitFilesAsOne fs paths
      | Stream \<Rightarrow> ([], Inr [\<lparr>source_file = FileName ''stdin'',
                               sequences = analyzeText (processStdIn stdin)\<rparr>]))"

text \<open>
  The exit status of the process, from the last lines of \<^verbatim>\<open>index.js\<close>: the handler on
  \<^verbatim>\<open>main().catch\<close> calls \<^verbatim>\<open>process.exit(1)\<close> when the promise of \<^verbatim>\<open>main\<close> rejects. When the
  promise is fulfilled, and also when it never settles and nothing is left to run, the
  process ends with status 0.
\<close>

definition processExitStatus :: "failure + 'a \<Rightarrow> int" where
  "processExitStatus outcome =
     (case outcome of
        Inl (Rejected err) \<Rightarrow> 1
      | Inl Pending \<Rightarrow> 0
      | Inr topSequences \<Rightarrow> 0)"

section \<open>Properties\<close>

subsection \<open>The work partitioner\<close>

lemma cdiv_char: assumes "0 < s" shows "(cdiv R s - 1) * s < R \<and> R \<le> cdiv R s * s"
proof -
  define d where "d = (- R) div s"
  define m where "m = (- R) mod s"
  have e: "- R = s * d + m" by (simp add: d_def m_def)
  have m: "0 \<le> m" "m < s" using assms by (simp_all add: m_def)
  have c: "cdiv R s * s = - (s * d)" by (simp add: cdiv_def d_def)
  have "(cdiv R s - 1) * s = cdiv R s * s - s" by (simp add: algebra_simps)
  with e m c show ?thesis by linarith
qed

lemma cdiv_unique: assumes "0 < s" "(c - 1) * s < R" "R \<le> c * s" shows "cdiv R s = c"
proof -
  let ?k = "cdiv R s"
  from cdiv_char[OF assms(1), of R] have k: "(?k - 1) * s < R" "R \<le> ?k * s" by simp_all
  have "\<not> ?k < c"
  proof
    assume "?k < c"
    then have "?k \<le> c - 1" by simp
    then have "?k * s \<le> (c - 1) * s" using assms(1) by (simp add: mult_right_mono)
    with k assms show False by linarith
  qed
  moreover have "\<not> c < ?k"
  proof
    assume "c < ?k"
    then have "c \<le> ?k - 1" by simp
    then have "c * s \<le> (?k - 1) * s" using assms(1) by (simp add: mult_right_mono)
    with k assms show False by linarith
  qed
  ultimately show ?thesis by linarith
qed

lemma cdiv_bounds: assumes "0 \<le> R" "1 \<le> s" shows "0 \<le> cdiv R s \<and> cdiv R s \<le> R"
proof -
  let ?k = "cdiv R s"
  have s: "0 < s" using assms by simp
  from cdiv_char[OF s, of R] have k: "(?k - 1) * s < R" "R \<le> ?k * s" by simp_all
  have "0 \<le> ?k"
  proof (rule ccontr)
    assume "\<not> 0 \<le> ?k"
    then have "?k \<le> - 1" by simp
    then have "?k * s \<le> (- 1) * s" using s by (simp only: mult_right_mono)
    with k assms show False by linarith
  qed
  moreover have "?k \<le> R"
  proof (rule ccontr)
    assume "\<not> ?k \<le> R"
    then have "R \<le> ?k - 1" by simp
    then have "R * s \<le> (?k - 1) * s" using s by (simp add: mult_right_mono)
    moreover have "R * 1 \<le> R * s" using assms by (intro mult_left_mono) simp_all
    ultimately show False using k by linarith
  qed
  ultimately show ?thesis by simp
qed

lemma cdiv_one: "cdiv R 1 = R" by (simp add: cdiv_def)

lemma Math_ceil_cdiv: "Math_ceil (rat_of_int a / rat_of_int b) = cdiv a b"
  unfolding Math_ceil_def cdiv_def by (rule ceiling_divide_eq_div)

lemma slice_take_drop:
  "0 \<le> p \<Longrightarrow> 0 \<le> c \<Longrightarrow> p + c \<le> int (length xs) \<Longrightarrow>
   slice xs p (c + p) = take (nat c) (drop (nat p) xs)"
  by (simp add: slice_def Let_def min_def)

lemma splitLoop_stop: "\<not> i < n \<Longrightarrow> splitLoop array n i pos acc = acc"
  by simp

lemma splitLoop_step:
  assumes "i < n" "0 \<le> i" "length acc = nat i" "0 \<le> pos" "pos \<le> int (length array)"
  shows "splitLoop array n i pos acc =
         splitLoop array n (i + 1) (pos + cdiv (int (length array) - pos) (n - i))
           (acc @ [take (nat (cdiv (int (length array) - pos) (n - i))) (drop (nat pos) array)])"
proof -
  let ?c = "cdiv (int (length array) - pos) (n - i)"
  have b: "0 \<le> ?c \<and> ?c \<le> int (length array) - pos"
    using assms by (intro cdiv_bounds) simp_all
  then have sl: "slice array pos (?c + pos) = take (nat ?c) (drop (nat pos) array)"
    using assms by (intro slice_take_drop) simp_all
  have upd: "(acc @ [[]])[nat i := x] = acc @ [x]" for x :: "'a list"
    unfolding assms(3)[symmetric] by simp
  show ?thesis
    by (subst splitLoop.simps) (simp only: assms(1) if_True Let_def Math_ceil_cdiv sl upd)
qed

declare splitLoop.simps [simp del]

lemma splitLoop_length:
  "0 \<le> i \<Longrightarrow> i \<le> n \<Longrightarrow> length acc = nat i \<Longrightarrow> 0 \<le> pos \<Longrightarrow> pos \<le> int (length array) \<Longrightarrow>
   length (splitLoop array n i pos acc) = nat n"
proof (induction "nat (n - i)" arbitrary: i pos acc)
  case 0
  then have "\<not> i < n" by simp
  with 0 show ?case by (simp add: splitLoop_stop)
next
  case (Suc k)
  then have lt: "i < n" by linarith
  let ?c = "cdiv (int (length array) - pos) (n - i)"
  let ?acc = "acc @ [take (nat ?c) (drop (nat pos) array)]"
  have b: "0 \<le> ?c \<and> ?c \<le> int (length array) - pos"
    using Suc.prems lt by (intro cdiv_bounds) simp_all
  have st: "splitLoop array n i pos acc = splitLoop array n (i + 1) (pos + ?c) ?acc"
    using lt Suc.prems by (intro splitLoop_step) simp_all
  have "length (splitLoop array n (i + 1) (pos + ?c) ?acc) = nat n"
  proof (rule Suc.hyps(1))
    show "k = nat (n - (i + 1))" using Suc.hyps(2) by linarith
    show "length ?acc = nat (i + 1)" using Suc.prems by (simp add: nat_add_distrib)
  qed (use Suc.prems lt b in simp_all)
  with st show ?case by simp
qed

lemma splitLoop_concat:
  "0 \<le> i \<Longrightarrow> i < n \<Longrightarrow> length acc = nat i \<Longrightarrow> 0 \<le> pos \<Longrightarrow> pos \<le> int (length array) \<Longrightarrow>
   concat (splitLoop array n i pos acc) = concat acc @ drop (nat pos) array"
proof (induction "nat (n - i)" arbitrary: i pos acc)
  case 0
  then show ?case by simp
next
  case (Suc k)
  let ?c = "cdiv (int (length array) - pos) (n - i)"
  let ?chunk = "take (nat ?c) (drop (nat pos) array)"
  let ?acc = "acc @ [?chunk]"
  have b: "0 \<le> ?c \<and> ?c \<le> int (length array) - pos"
    using Suc.prems by (intro cdiv_bounds) simp_all
  have st: "splitLoop array n i pos acc = splitLoop array n (i + 1) (pos + ?c) ?acc"
    using Suc.prems by (intro splitLoop_step) simp_all
  have len: "length ?acc = nat (i + 1)" using Suc.prems by (simp add: nat_add_distrib)
  show ?case
  proof (cases "i + 1 < n")
    case True
    have "concat (splitLoop array n (i + 1) (pos + ?c) ?acc) = concat ?acc @ drop (nat (pos + ?c)) array"
    proof (rule Suc.hyps(1))
      show "k = nat (n - (i + 1))" using Suc.hyps(2) by linarith
    qed (use Suc.prems True b len in simp_all)
    also have "\<dots> = concat acc @ (?chunk @ drop (nat ?c) (drop (nat pos) array))"
      using b Suc.prems by (simp add: nat_add_distrib add.commute)
    also have "\<dots> = concat acc @ drop (nat pos) array"
      by (simp only: append_take_drop_id)
    finally show ?thesis using st by simp
  next
    case False
    with Suc.prems have n: "n - i = 1" by linarith
    then have c: "?c = int (length array) - pos" by (simp add: cdiv_one)
    have "splitLoop array n (i + 1) (pos + ?c) ?acc = ?acc"
      using False by (simp add: splitLoop_stop)
    moreover have "?chunk = drop (nat pos) array"
      using Suc.prems by (simp add: c nat_diff_distrib)
    ultimately show ?thesis using st by simp
  qed
qed

text \<open>
  Claim C2. For every array and every worker count \<open>T \<ge> 1\<close>, \<^verbatim>\<open>splitArrayToNChunks\<close>
  returns exactly \<open>T\<close> chunks, and concatenating them in order gives back the array: every
  item is covered once and in its original position. (With \<open>T\<close> above the number of items
  the trailing chunks are empty.)
\<close>

theorem split_roundtrip:
  assumes "1 \<le> T"
  shows "length (splitArrayToNChunks array T) = nat T \<and>
         concat (splitArrayToNChunks array T) = array"
  using assms splitLoop_length[of 0 T "[]" 0 array] splitLoop_concat[of 0 T "[]" 0 array]
  by (simp add: splitArrayToNChunks_def)

theorem split_roundtrip_witness:
  "(1::int) \<le> 4 \<and> splitArrayToNChunks [10, 20 :: nat] 4 = [[10], [20], [], []] \<and>
   length (splitArrayToNChunks [10, 20 :: nat] 4) = 4 \<and>
   concat (splitArrayToNChunks [10, 20 :: nat] 4) = [10, 20]"
proof -
  have e: "splitArrayToNChunks [10, 20 :: nat] 4 = [[10], [20], [], []]" by code_simp
  from split_roundtrip[of 4 "[10, 20 :: nat]"] e show ?thesis by simp
qed

lemma splitLoop_prefix:
  "0 \<le> i \<Longrightarrow> i \<le> n \<Longrightarrow> length acc = nat i \<Longrightarrow> 0 \<le> pos \<Longrightarrow> pos \<le> int (length array) \<Longrightarrow>
   take (nat i) (splitLoop array n i pos acc) = acc"
proof (induction "nat (n - i)" arbitrary: i pos acc)
  case 0
  then have "\<not> i < n" by simp
  with 0 show ?case by (simp add: splitLoop_stop)
next
  case (Suc k)
  then have lt: "i < n" by linarith
  let ?c = "cdiv (int (length array) - pos) (n - i)"
  let ?acc = "acc @ [take (nat ?c) (drop (nat pos) array)]"
  have b: "0 \<le> ?c \<and> ?c \<le> int (length array) - pos"
    using Suc.prems lt by (intro cdiv_bounds) simp_all
  have st: "splitLoop array n i pos acc = splitLoop array n (i + 1) (pos + ?c) ?acc"
    using lt Suc.prems by (intro splitLoop_step) simp_all
  have "take (nat (i + 1)) (splitLoop array n (i + 1) (pos + ?c) ?acc) = ?acc"
  proof (rule Suc.hyps(1))
    show "k = nat (n - (i + 1))" using Suc.hyps(2) by linarith
    show "length ?acc = nat (i + 1)" using Suc.prems by (simp add: nat_add_distrib)
  qed (use Suc.prems lt b in simp_all)
  then have "take (nat i) (take (nat (i + 1)) (splitLoop array n i pos acc)) = take (nat i) ?acc"
    using st by simp
  moreover have "min (nat i) (nat (i + 1)) = nat i" using Suc.prems by simp
  ultimately show ?case using Suc.prems by simp
qed

lemma splitLoop_sizes:
  "0 \<le> i \<Longrightarrow> i \<le> n \<Longrightarrow> length acc = nat i \<Longrightarrow> 0 \<le> pos \<Longrightarrow> pos \<le> int (length array) \<Longrightarrow>
   q * (n - i) \<le> int (length array) - pos \<Longrightarrow> int (length array) - pos \<le> (q + 1) * (n - i) \<Longrightarrow>
   (\<forall>c \<in> set (drop (nat i) (splitLoop array n i pos acc)). int (length c) = q \<or> int (length c) = q + 1) \<and>
   sorted_wrt (\<lambda>a b. length b \<le> length a) (drop (nat i) (splitLoop array n i pos acc))"
proof (induction "nat (n - i)" arbitrary: i pos acc q)
  case 0
  then have "\<not> i < n" by simp
  with 0 show ?case by (simp add: splitLoop_stop)
next
  case (Suc k)
  then have lt: "i < n" by linarith
  let ?R = "int (length array) - pos"
  let ?c = "cdiv ?R (n - i)"
  let ?chunk = "take (nat ?c) (drop (nat pos) array)"
  let ?acc = "acc @ [?chunk]"
  let ?res = "splitLoop array n (i + 1) (pos + ?c) ?acc"
  let ?rest = "drop (nat (i + 1)) ?res"
  have b: "0 \<le> ?c \<and> ?c \<le> ?R"
    using Suc.prems lt by (intro cdiv_bounds) simp_all
  have st: "splitLoop array n i pos acc = ?res"
    using lt Suc.prems by (intro splitLoop_step) simp_all
  have k: "k = nat (n - (i + 1))" using Suc.hyps(2) by linarith
  have len: "length ?acc = nat (i + 1)" using Suc.prems by (simp add: nat_add_distrib)
  have "nat ?c \<le> length array - nat pos" using b Suc.prems by arith
  then have lc: "int (length ?chunk) = ?c" using b by (simp add: min_absorb2)
  have pre: "take (nat (i + 1)) ?res = ?acc"
    using Suc.prems lt b len by (intro splitLoop_prefix) simp_all
  have "?res = take (nat (i + 1)) ?res @ ?rest" by simp
  then have res: "?res = acc @ ?chunk # ?rest" using pre by simp
  have dr: "drop (nat i) ?res = ?chunk # ?rest"
    by (subst res) (simp add: Suc.prems(3)[symmetric])
  have s': "q' * (n - (i + 1)) = q' * (n - i) - q'" for q' :: int
    by (simp add: algebra_simps)
  have IH: "q' * (n - (i + 1)) \<le> ?R - ?c \<Longrightarrow> ?R - ?c \<le> (q' + 1) * (n - (i + 1)) \<Longrightarrow>
        (\<forall>c \<in> set ?rest. int (length c) = q' \<or> int (length c) = q' + 1) \<and>
        sorted_wrt (\<lambda>a b. length b \<le> length a) ?rest" for q'
    using Suc.hyps(1)[OF k, of ?acc "pos + ?c" q'] Suc.prems lt b len
    by (simp add: algebra_simps)
  consider (exact) "?R = q * (n - i)" | (above) "q * (n - i) < ?R"
    using Suc.prems by linarith
  then show ?case
  proof cases
    case exact
    have c: "?c = q" unfolding exact using lt by (intro cdiv_unique) (simp_all add: algebra_simps)
    have h1: "q * (n - (i + 1)) \<le> ?R - ?c" "?R - ?c \<le> (q + 1) * (n - (i + 1))"
      using exact c lt by (simp_all add: algebra_simps)
    have h2: "(q - 1) * (n - (i + 1)) \<le> ?R - ?c" "?R - ?c \<le> (q - 1 + 1) * (n - (i + 1))"
      using exact c lt by (simp_all add: algebra_simps)
    have srt: "sorted_wrt (\<lambda>a b. length b \<le> length a) ?rest"
      using IH[OF h1] by blast
    have all: "\<forall>c \<in> set ?rest. int (length c) = q"
    proof (intro ballI)
      fix c assume "c \<in> set ?rest"
      with IH[OF h1] IH[OF h2]
      have "int (length c) = q \<or> int (length c) = q + 1"
        "int (length c) = q - 1 \<or> int (length c) = q - 1 + 1" by blast+
      then show "int (length c) = q" by linarith
    qed
    show ?thesis unfolding st dr using all srt lc c by auto
  next
    case above
    have c: "?c = q + 1" using lt above Suc.prems by (intro cdiv_unique) simp_all
    have h1: "q * (n - (i + 1)) \<le> ?R - ?c" "?R - ?c \<le> (q + 1) * (n - (i + 1))"
      using above c lt Suc.prems by (simp_all add: algebra_simps)
    from IH[OF h1] have all: "\<forall>c \<in> set ?rest. int (length c) = q \<or> int (length c) = q + 1"
      and srt: "sorted_wrt (\<lambda>a b. length b \<le> length a) ?rest" by auto
    show ?thesis unfolding st dr using all srt lc c by auto
  qed
qed

lemma split_sizes_q:
  assumes "1 \<le> T" "q * T \<le> int (length array)" "int (length array) \<le> (q + 1) * T"
  shows "(\<forall>c \<in> set (splitArrayToNChunks array T). int (length c) = q \<or> int (length c) = q + 1) \<and>
         sorted_wrt (\<lambda>a b. length b \<le> length a) (splitArrayToNChunks array T)"
  using assms splitLoop_sizes[of 0 T "[]" 0 array q]
  by (simp add: splitArrayToNChunks_def)

lemma div_bounds_int:
  assumes "1 \<le> (T::int)"
  shows "(N div T) * T \<le> N \<and> N \<le> (N div T + 1) * T"
proof -
  define d where "d = N div T"
  define m where "m = N mod T"
  have e: "N = T * d + m" by (simp add: d_def m_def)
  have m: "0 \<le> m" "m < T" using assms by (simp_all add: m_def)
  have "d * T \<le> N" using e m by (simp add: mult.commute)
  moreover have "N \<le> (d + 1) * T" using e m by (simp add: algebra_simps)
  ultimately show ?thesis by (simp add: d_def)
qed

text \<open>
  Claim C3. For every array of \<open>N\<close> items and every worker count \<open>T \<ge> 1\<close>, every chunk has
  \<open>\<lfloor>N / T\<rfloor>\<close> or \<open>\<lceil>N / T\<rceil>\<close> items, the chunk sizes never increase from one slot to the
  next, any two chunk sizes differ by at most one, and \<^verbatim>\<open>[1,2,3,4,5]\<close> split into three
  chunks is \<^verbatim>\<open>[[1,2],[3,4],[5]]\<close>.
\<close>

theorem split_balance:
  assumes "1 \<le> T"
  shows "(\<forall>c \<in> set (splitArrayToNChunks array T).
            int (length c) = \<lfloor>rat_of_int (int (length array)) / rat_of_int T\<rfloor> \<or>
            int (length c) = \<lceil>rat_of_int (int (length array)) / rat_of_int T\<rceil>) \<and>
         sorted_wrt (\<lambda>a b. length b \<le> length a) (splitArrayToNChunks array T) \<and>
         (\<forall>c \<in> set (splitArrayToNChunks array T). \<forall>d \<in> set (splitArrayToNChunks array T).
            length c \<le> length d + 1) \<and>
         splitArrayToNChunks [1, 2, 3, 4, 5 :: int] 3 = [[1, 2], [3, 4], [5]]"
proof -
  let ?N = "int (length array)"
  let ?q = "?N div T"
  let ?chunks = "splitArrayToNChunks array T"
  have fl: "\<lfloor>rat_of_int ?N / rat_of_int T\<rfloor> = ?q" by (rule floor_divide_of_int_eq)
  have ce: "\<lceil>rat_of_int ?N / rat_of_int T\<rceil> = cdiv ?N T"
    using Math_ceil_cdiv[of ?N T] by (simp add: Math_ceil_def)
  have bnd: "?q * T \<le> ?N \<and> ?N \<le> (?q + 1) * T" using assms by (rule div_bounds_int)
  have main: "(\<forall>c \<in> set ?chunks. int (length c) = ?q \<or> int (length c) = ?q + 1) \<and>
         sorted_wrt (\<lambda>a b. length b \<le> length a) ?chunks"
    using assms bnd by (intro split_sizes_q) simp_all
  have sizes: "\<forall>c \<in> set ?chunks. int (length c) = ?q \<or> int (length c) = cdiv ?N T"
  proof (cases "?N = ?q * T")
    case True
    then have "(?q - 1) * T \<le> ?N \<and> ?N \<le> (?q - 1 + 1) * T"
      using assms by (simp add: algebra_simps)
    then have low: "\<forall>c \<in> set ?chunks. int (length c) = ?q - 1 \<or> int (length c) = ?q - 1 + 1"
      using assms split_sizes_q[of T "?q - 1" array] by blast
    show ?thesis
    proof (intro ballI)
      fix c assume "c \<in> set ?chunks"
      with low main have "int (length c) = ?q - 1 \<or> int (length c) = ?q - 1 + 1"
        "int (length c) = ?q \<or> int (length c) = ?q + 1" by blast+
      then have "int (length c) = ?q" by linarith
      then show "int (length c) = ?q \<or> int (length c) = cdiv ?N T" by simp
    qed
  next
    case False
    with bnd have "?q * T < ?N" by linarith
    then have "cdiv ?N T = ?q + 1" using assms bnd by (intro cdiv_unique) simp_all
    with main show ?thesis by simp
  qed
  have bal: "\<forall>c \<in> set ?chunks. \<forall>d \<in> set ?chunks. length c \<le> length d + 1"
  proof (intro ballI)
    fix c d assume "c \<in> set ?chunks" "d \<in> set ?chunks"
    with main have "int (length c) = ?q \<or> int (length c) = ?q + 1"
      "int (length d) = ?q \<or> int (length d) = ?q + 1" by blast+
    then show "length c \<le> length d + 1" by linarith
  qed
  have ex: "splitArrayToNChunks [1, 2, 3, 4, 5 :: int] 3 = [[1, 2], [3, 4], [5]]"
    by code_simp
  from sizes main bal ex show ?thesis unfolding fl ce by blast
qed

theorem split_balance_witness:
  "(1::int) \<le> 2 \<and> sorted_wrt (\<lambda>a b. length b \<le> length a) (splitArrayToNChunks ''abcde'' 2) \<and>
   splitArrayToNChunks ''abcde'' 2 = [''abc'', ''de'']"
proof -
  have e: "splitArrayToNChunks ''abcde'' 2 = [''abc'', ''de'']" by code_simp
  from split_balance[of 2 "''abcde''"] e show ?thesis by simp
qed
subsection \<open>The trigram counter\<close>

lemma slice_window:
  assumes "0 \<le> i" "i < int (length xs)"
  shows "slice xs i (i + 3) = take 3 (drop (nat i) xs)"
proof (cases "i + 3 \<le> int (length xs)")
  case True
  with assms show ?thesis by (simp add: slice_def Let_def min_def)
next
  case False
  with assms have "take (nat (int (length xs) - i)) (drop (nat i) xs) = take 3 (drop (nat i) xs)"
    by simp
  with False assms show ?thesis by (simp add: slice_def Let_def min_def)
qed

lemma sum_map_set:
  "sum_list (map snd (map_set (m :: ('k, nat) jsmap) k v)) +
     (case map_get m k of None \<Rightarrow> 0 | Some c \<Rightarrow> c) =
   sum_list (map snd m) + v"
  by (induction m) (auto split: option.splits)

lemma sum_map_set_new:
  "map_get m k = None \<Longrightarrow> sum_list (map snd (map_set m k (1::nat))) = sum_list (map snd m) + 1"
  using sum_map_set[of m k 1] by simp

lemma sum_map_set_old:
  "map_get m k = Some (c::nat) \<Longrightarrow> sum_list (map snd (map_set m k (c + 1))) = sum_list (map snd m) + 1"
  using sum_map_set[of m k "c + 1"] by simp

lemma sequenceLoop_sum:
  "0 \<le> i \<Longrightarrow>
   int (sum_list (map snd (sequenceLoop ta i m))) =
   int (sum_list (map snd m)) + max 0 (int (length ta) - 2 - i)"
proof (induction "nat (int (length ta) - i)" arbitrary: i m)
  case 0
  then have "\<not> i < int (length ta)" by simp
  then show ?case by (subst sequenceLoop.simps) simp
next
  case (Suc k)
  then have lt: "i < int (length ta)" by linarith
  have k: "k = nat (int (length ta) - (i + 1))" using Suc.hyps(2) by linarith
  define w where "w = take 3 (drop (nat i) ta)"
  have sl: "slice ta i (i + 3) = w"
    unfolding w_def using Suc.prems lt by (rule slice_window)
  have len: "int (length w) = min 3 (int (length ta) - i)"
    unfolding w_def using Suc.prems lt by simp
  show ?case
  proof (cases "int (length ta) - i < 3")
    case True
    then have "length w < 3" using len by linarith
    then have "sequenceLoop ta i m = m"
      by (subst sequenceLoop.simps) (simp add: lt sl Let_def del: sequenceLoop.simps)
    with True show ?thesis by simp
  next
    case False
    then have n3: "\<not> length w < 3" using len by linarith
    let ?t = "join '' '' w"
    have IH: "int (sum_list (map snd (sequenceLoop ta (i + 1) m'))) =
          int (sum_list (map snd m')) + max 0 (int (length ta) - 2 - (i + 1))" for m'
      using Suc.hyps(1)[OF k, of m'] Suc.prems by simp
    show ?thesis
    proof (cases "map_get m ?t")
      case None
      then have "sequenceLoop ta i m = sequenceLoop ta (i + 1) (map_set m ?t 1)"
        by (subst sequenceLoop.simps) (simp add: lt sl n3 Let_def map_has_def del: sequenceLoop.simps)
      then show ?thesis using IH[of "map_set m ?t 1"] sum_map_set_new[OF None] False by simp
    next
      case (Some c)
      then have "sequenceLoop ta i m = sequenceLoop ta (i + 1) (map_set m ?t (c + 1))"
        by (subst sequenceLoop.simps) (simp add: lt sl n3 Let_def map_has_def del: sequenceLoop.simps)
      then show ?thesis using IH[of "map_set m ?t (c + 1)"] sum_map_set_old[OF Some] False by simp
    qed
  qed
qed

lemma split_nonempty: "split sep s \<noteq> []"
  by (induction s) (auto split: list.splits)

lemma join_split: "join [sep] (split sep s) = s"
proof (induction s)
  case Nil
  show ?case by simp
next
  case (Cons c cs)
  obtain w ws where sp: "split sep cs = w # ws"
    using split_nonempty[of sep cs] by (cases "split sep cs") auto
  show ?case
  proof (cases "c = sep")
    case True
    with Cons sp show ?thesis by simp
  next
    case False
    with Cons sp show ?thesis by (cases ws) auto
  qed
qed

lemma three_tokens:
  assumes "length (split CHR '' '' text) = 3"
  shows "generateSequenceMap text = [(text, 1)]"
proof -
  let ?ta = "split CHR '' '' text"
  have j: "join '' '' ?ta = text" by (rule join_split)
  have s0: "slice ?ta 0 (0 + 3) = take 3 (drop (nat 0) ?ta)"
    using assms by (intro slice_window) simp_all
  have s1: "slice ?ta 1 (1 + 3) = take 3 (drop (nat 1) ?ta)"
    using assms by (intro slice_window) simp_all
  have l1: "length (take 3 (drop (nat 1) ?ta)) < 3" using assms by simp
  have step1: "sequenceLoop ?ta 1 [(text, 1)] = [(text, 1)]"
    using s1 l1 by (subst sequenceLoop.simps) (simp add: assms Let_def del: sequenceLoop.simps)
  have "sequenceLoop ?ta 0 [] = sequenceLoop ?ta (0 + 1) (map_set [] text 1)"
    using s0 j by (subst sequenceLoop.simps) (simp add: assms Let_def map_has_def del: sequenceLoop.simps)
  with step1 show ?thesis by (simp add: generateSequenceMap_def)
qed

text \<open>
  Claim C1. For every text, and so for every Normalized Text, with \<open>L\<close> the number of
  tokens that \<^verbatim>\<open>split(" ")\<close> yields, the counts of the table returned by
  \<^verbatim>\<open>generateSequenceMap\<close> add up to \<open>max 0 (L - 2)\<close>; the empty text gives the empty table
  (its one empty token gives the same sum as no token); and a text of exactly three tokens
  gives the table with the text itself as the only key, counted once.
\<close>

theorem counting_correctness:
  "int (sum_list (map snd (generateSequenceMap text))) =
     max 0 (int (length (split CHR '' '' text)) - 2) \<and>
   generateSequenceMap '''' = [] \<and>
   (length (split CHR '' '' text) = 3 \<longrightarrow> generateSequenceMap text = [(text, 1)])"
proof -
  have a: "int (sum_list (map snd (generateSequenceMap text))) =
     max 0 (int (length (split CHR '' '' text)) - 2)"
    using sequenceLoop_sum[of 0 "split CHR '' '' text" "[]"] by (simp add: generateSequenceMap_def)
  have b: "generateSequenceMap '''' = []" by code_simp
  from a b three_tokens show ?thesis by blast
qed

theorem counting_correctness_witness:
  "length (split CHR '' '' ''one two three'') = 3 \<and>
   generateSequenceMap ''one two three'' = [(''one two three'', 1)] \<and>
   int (sum_list (map snd (generateSequenceMap ''one two three''))) = 1"
proof -
  have l: "length (split CHR '' '' ''one two three'') = 3" by code_simp
  from counting_correctness[of "''one two three''"] l show ?thesis by simp
qed

subsection \<open>The ranker\<close>

lemma mset_insertBy: "mset (insertBy cmp x xs) = add_mset x (mset xs)"
  by (induction xs) auto

lemma mset_sortBy: "mset (sortBy cmp xs) = mset xs"
  unfolding sortBy_def by (induction xs) (auto simp: mset_insertBy)

lemma set_insertBy: "set (insertBy cmp x xs) = insert x (set xs)"
  by (induction xs) auto

lemma sorted_insertBy:
  "sorted_wrt (\<lambda>a b. snd b \<le> snd a) xs \<Longrightarrow>
   sorted_wrt (\<lambda>a b. snd b \<le> snd a) (insertBy byCountDesc x xs)"
proof (induction xs)
  case Nil
  show ?case by simp
next
  case (Cons y ys)
  show ?case
  proof (cases "byCountDesc x y \<le> 0")
    case True
    then have "snd y \<le> snd x" by (simp add: byCountDesc_def)
    with Cons.prems True show ?thesis by auto
  next
    case False
    then have "snd x \<le> snd y" by (simp add: byCountDesc_def)
    with Cons False show ?thesis by (auto simp: set_insertBy)
  qed
qed

lemma sorted_sortBy: "sorted_wrt (\<lambda>a b. snd b \<le> snd a) (sortBy byCountDesc xs)"
  unfolding sortBy_def by (induction xs) (auto intro: sorted_insertBy)

lemma getTopSequences_sortBy: "getTopSequences m = sortBy byCountDesc m"
proof -
  have "map (\<lambda>(key, value). (key, value)) m = m" by (induction m) auto
  then show ?thesis by (simp add: getTopSequences_def)
qed

text \<open>
  Claim C4. For every frequency table (a \<^verbatim>\<open>Map\<close>, so its keys are distinct),
  \<^verbatim>\<open>getTopSequences\<close> returns a list in which every key of the table occurs exactly once
  and no other key occurs, which has the entries of the table and as many of them, and in
  which the count of each entry is at least the count of the entry behind it.
\<close>

theorem ranking_correctness:
  assumes "distinct (map fst m)"
  shows "(\<forall>k \<in> fst ` set m. count_list (map fst (getTopSequences m)) k = 1) \<and>
         fst ` set (getTopSequences m) = fst ` set m \<and>
         mset (getTopSequences m) = mset m \<and>
         length (getTopSequences m) = length m \<and>
         (\<forall>i. Suc i < length (getTopSequences m) \<longrightarrow>
              snd (getTopSequences m ! Suc i) \<le> snd (getTopSequences m ! i))"
proof -
  let ?out = "getTopSequences m"
  have ms: "mset ?out = mset m" by (simp add: getTopSequences_sortBy mset_sortBy)
  then have st: "set ?out = set m" by (rule mset_eq_setD)
  from ms have len: "length ?out = length m" by (rule mset_eq_length)
  from ms have "mset (map fst ?out) = mset (map fst m)" by simp
  then have cnt: "count_list (map fst ?out) k = count_list (map fst m) k" for k
    by (metis count_mset)
  have keys: "\<forall>k \<in> fst ` set m. count_list (map fst ?out) k = 1"
  proof
    fix k assume "k \<in> fst ` set m"
    then have "k \<in> set (map fst m)" by simp
    with assms have "count (mset (map fst m)) k = 1"
      unfolding distinct_count_atmost_1 by presburger
    then have "count_list (map fst m) k = 1" by (simp only: count_mset)
    then show "count_list (map fst ?out) k = 1" by (simp only: cnt)
  qed
  have srt: "sorted_wrt (\<lambda>a b. snd b \<le> snd a) ?out"
    by (simp add: getTopSequences_sortBy sorted_sortBy)
  have adj: "\<forall>i. Suc i < length ?out \<longrightarrow> snd (?out ! Suc i) \<le> snd (?out ! i)"
    using sorted_wrt_nth_less[OF srt] by simp
  from keys st ms len adj show ?thesis by simp
qed

theorem ranking_correctness_witness:
  "distinct (map fst [(''a b c'', 1), (''b c d'', 3), (''c d e'', 1 :: nat)]) \<and>
   getTopSequences [(''a b c'', 1), (''b c d'', 3), (''c d e'', 1)] =
     [(''b c d'', 3), (''a b c'', 1), (''c d e'', 1)] \<and>
   length (getTopSequences [(''a b c'', 1), (''b c d'', 3), (''c d e'', 1)]) = 3 \<and>
   count_list (map fst (getTopSequences [(''a b c'', 1), (''b c d'', 3), (''c d e'', 1)])) ''b c d'' = 1"
proof -
  have d: "distinct (map fst [(''a b c'', 1), (''b c d'', 3), (''c d e'', 1 :: nat)])" by simp
  have e: "getTopSequences [(''a b c'', 1), (''b c d'', 3), (''c d e'', 1)] =
     [(''b c d'', 3), (''a b c'', 1), (''c d e'', 1)]" by code_simp
  from ranking_correctness[OF d] d e show ?thesis by simp
qed

subsection \<open>The normalizer\<close>

lemma tokenChar_not_space: "tokenChar c \<Longrightarrow> \<not> isSpace c"
  unfolding tokenChar_def isLetter_def isMark_def isSpace_def Let_def
  by auto

lemma okChar_space: "okChar c \<Longrightarrow> isSpace c \<Longrightarrow> c = CHR '' ''"
  using tokenChar_not_space by (auto simp: okChar_def)

lemma space_isSpace: "isSpace CHR '' ''"
  by (simp add: isSpace_def)

lemma okChar_kept: "okChar c \<Longrightarrow> keptChar c"
  by (auto simp: okChar_def tokenChar_def keptChar_def)

lemma okChar_not_newline: "okChar c \<Longrightarrow> c \<noteq> CHR 0x0A"
proof
  assume ok: "okChar c" and "c = CHR 0x0A"
  then have "isSpace c" by (simp add: isSpace_def)
  with ok have "c = CHR '' ''" by (rule okChar_space)
  with \<open>c = CHR 0x0A\<close> show False by simp
qed

lemma replaceNewlines_fixed: "list_all okChar x \<Longrightarrow> replaceNewlines x = x"
  unfolding replaceNewlines_def
  by (induction x) (auto dest: okChar_not_newline)

lemma replaceOther_fixed: "list_all okChar x \<Longrightarrow> replaceOther x = x"
  unfolding replaceOther_def
  by (induction x) (auto dest: okChar_kept)

lemma noDoubleSpace_tail: "noDoubleSpace (c # cs) \<Longrightarrow> noDoubleSpace cs"
  by (cases cs) auto

lemma noDanglingApostrophe_tail: "noDanglingApostrophe (c # cs) \<Longrightarrow> noDanglingApostrophe cs"
  by (cases cs rule: noDanglingApostrophe.cases) auto

lemma dropWhile_after_space:
  assumes "list_all okChar (c # cs)" "noDoubleSpace (c # cs)" "isSpace c"
  shows "dropWhile isSpace cs = cs"
proof (cases cs)
  case Nil
  then show ?thesis by simp
next
  case (Cons q r)
  from assms(1,3) have c: "c = CHR '' ''" by (auto dest: okChar_space)
  have "\<not> isSpace q"
  proof
    assume "isSpace q"
    moreover from assms(1) Cons have "okChar q" by simp
    ultimately have "q = CHR '' ''" by (auto dest: okChar_space)
    with c assms(2) Cons show False by simp
  qed
  with Cons show ?thesis by simp
qed

lemma replaceApostrophes_fixed:
  "list_all okChar x \<Longrightarrow> noDoubleSpace x \<Longrightarrow> noDanglingApostrophe x \<Longrightarrow>
   replaceApostrophes x = x"
proof (induction x)
  case Nil
  show ?case by simp
next
  case (Cons c cs)
  have IH: "replaceApostrophes cs = cs"
    using Cons by (auto dest: noDoubleSpace_tail noDanglingApostrophe_tail)
  show ?case
  proof (cases "isSpace c")
    case False
    with IH show ?thesis by simp
  next
    case True
    have dw: "dropWhile isSpace cs = cs"
      using Cons.prems(1,2) True by (rule dropWhile_after_space)
    have unf: "replaceApostrophes (c # cs) =
        (case cs of
           q # s # r \<Rightarrow>
             if q = CHR 0x27 \<and> isSpace s
             then CHR '' '' # replaceApostrophes (dropWhile isSpace r)
             else c # replaceApostrophes cs
         | _ \<Rightarrow> c # replaceApostrophes cs)"
      using True by (simp only: replaceApostrophes.simps if_True dw)
    have nd: "\<not> (q = CHR 0x27 \<and> isSpace s)" if "cs = q # s # r" for q s r
      using Cons.prems(3) True that by simp
    show ?thesis
      unfolding unf IH using nd by (auto split: list.splits)
  qed
qed

lemma replaceSpaces_fixed:
  "list_all okChar x \<Longrightarrow> noDoubleSpace x \<Longrightarrow> replaceSpaces x = x"
proof (induction x)
  case Nil
  show ?case by simp
next
  case (Cons c cs)
  have IH: "replaceSpaces cs = cs"
    using Cons by (auto dest: noDoubleSpace_tail)
  show ?case
  proof (cases "isSpace c")
    case False
    with IH show ?thesis by simp
  next
    case True
    have dw: "dropWhile isSpace cs = cs"
      using Cons.prems(1,2) True by (rule dropWhile_after_space)
    from Cons.prems(1) True have "c = CHR '' ''" by (auto dest: okChar_space)
    with True dw IH show ?thesis by simp
  qed
qed

lemma trim_fixed:
  assumes "case x of [] \<Rightarrow> True | c # _ \<Rightarrow> \<not> isSpace c"
    and "case rev x of [] \<Rightarrow> True | c # _ \<Rightarrow> \<not> isSpace c"
  shows "trim x = x"
proof -
  have a: "dropWhile isSpace x = x" using assms(1) by (cases x) auto
  have b: "dropWhile isSpace (rev x) = rev x" using assms(2) by (cases "rev x") auto
  show ?thesis by (simp add: trim_def a b)
qed

lemma formatText_fixed:
  assumes "normalizedText x"
  shows "formatText x = x"
proof -
  from assms have lo: "toLowerCase x = x"
    and ok: "list_all okChar x"
    and hd: "case x of [] \<Rightarrow> True | c # _ \<Rightarrow> \<not> isSpace c"
    and lst: "case rev x of [] \<Rightarrow> True | c # _ \<Rightarrow> \<not> isSpace c"
    and nds: "noDoubleSpace x"
    and nda: "noDanglingApostrophe x"
    by (simp_all add: normalizedText_def)
  show ?thesis
    unfolding formatText_def
    by (simp only: lo replaceNewlines_fixed[OF ok] replaceOther_fixed[OF ok]
        replaceApostrophes_fixed[OF ok nds nda] replaceSpaces_fixed[OF ok nds]
        trim_fixed[OF hd lst])
qed

text \<open>
  Claim C7. The normalizer is idempotent on normalized input: for every string \<open>x\<close> that
  satisfies the Normalized Text invariant, \<^verbatim>\<open>formatText(formatText(x))\<close> equals
  \<^verbatim>\<open>formatText(x)\<close>; indeed \<^verbatim>\<open>formatText\<close> leaves such an \<open>x\<close> as it is.
\<close>

theorem normalizer_idempotent:
  assumes "normalizedText x"
  shows "formatText (formatText x) = formatText x \<and> formatText x = x"
  using formatText_fixed[OF assms] by simp

theorem normalizer_idempotent_witness:
  "normalizedText ''isn't 'tis shoes' who's state-of-the-art'' \<and>
   formatText (formatText ''isn't 'tis shoes' who's state-of-the-art'') =
     formatText ''isn't 'tis shoes' who's state-of-the-art'' \<and>
   formatText ''isn't 'tis shoes' who's state-of-the-art'' =
     ''isn't 'tis shoes' who's state-of-the-art''"
proof -
  have n: "normalizedText ''isn't 'tis shoes' who's state-of-the-art''" by code_simp
  from normalizer_idempotent[OF n] n show ?thesis by simp
qed

text \<open>
  Whatever the input, the output of \<^verbatim>\<open>formatText\<close> has no line feed, no white space at
  either end and no two spaces in a row.
\<close>

lemma replaceSpaces_chars:
  "c \<in> set (replaceSpaces z) \<Longrightarrow> isSpace c \<Longrightarrow> c = CHR '' ''"
proof (induction z rule: replaceSpaces.induct)
  case 1
  then show ?case by simp
next
  case (2 a as)
  then show ?case by (auto split: if_splits)
qed

lemma replaceSpaces_head:
  "replaceSpaces z = a # r \<Longrightarrow> a = CHR '' '' \<Longrightarrow> z \<noteq> [] \<and> isSpace (hd z)"
  by (cases z) (auto split: if_splits simp: space_isSpace)

lemma noDoubleSpace_Cons:
  "noDoubleSpace (a # y) = (\<not> (a = CHR '' '' \<and> (\<exists>r. y = CHR '' '' # r)) \<and> noDoubleSpace y)"
  by (cases y) auto

lemma dropWhile_head: "dropWhile P xs = a # r \<Longrightarrow> \<not> P a"
  using hd_dropWhile[of P xs] by auto

lemma replaceSpaces_noDoubleSpace: "noDoubleSpace (replaceSpaces z)"
proof (induction z rule: replaceSpaces.induct)
  case 1
  show ?case by simp
next
  case (2 c cs)
  show ?case
  proof (cases "isSpace c")
    case True
    have "\<not> (\<exists>r. replaceSpaces (dropWhile isSpace cs) = CHR '' '' # r)"
    proof
      assume "\<exists>r. replaceSpaces (dropWhile isSpace cs) = CHR '' '' # r"
      then obtain r where "replaceSpaces (dropWhile isSpace cs) = CHR '' '' # r" ..
      then have "dropWhile isSpace cs \<noteq> [] \<and> isSpace (hd (dropWhile isSpace cs))"
        by (rule replaceSpaces_head) simp
      then show False using hd_dropWhile[of isSpace cs] by simp
    qed
    with True 2 show ?thesis by (simp add: noDoubleSpace_Cons)
  next
    case False
    then have "c \<noteq> CHR '' ''" using space_isSpace by auto
    with False 2 show ?thesis by (simp add: noDoubleSpace_Cons)
  qed
qed

lemma noDoubleSpace_append: "noDoubleSpace (xs @ ys) \<Longrightarrow> noDoubleSpace xs \<and> noDoubleSpace ys"
proof (induction xs)
  case Nil
  then show ?case by simp
next
  case (Cons a xs)
  from Cons.prems have "noDoubleSpace (a # (xs @ ys))" by simp
  then have "\<not> (a = CHR '' '' \<and> (\<exists>r. xs @ ys = CHR '' '' # r)) \<and> noDoubleSpace (xs @ ys)"
    using noDoubleSpace_Cons[of a "xs @ ys"] by blast
  then have t: "noDoubleSpace (xs @ ys)" and h: "\<not> (a = CHR '' '' \<and> (\<exists>r. xs @ ys = CHR '' '' # r))"
    by blast+
  from h have "\<not> (a = CHR '' '' \<and> (\<exists>r. xs = CHR '' '' # r))" by auto
  with Cons.IH[OF t] show ?case using noDoubleSpace_Cons[of a xs] by blast
qed

lemma rev_dropWhile_rev: "rev (dropWhile P (rev z)) @ rev (takeWhile P (rev z)) = z"
proof -
  have "rev (takeWhile P (rev z) @ dropWhile P (rev z)) = z"
    by (simp only: takeWhile_dropWhile_id rev_rev_ident)
  then show ?thesis by (simp only: rev_append)
qed

lemma trim_middle:
  "takeWhile isSpace y @ trim y @ rev (takeWhile isSpace (rev (dropWhile isSpace y))) = y"
proof -
  have "trim y @ rev (takeWhile isSpace (rev (dropWhile isSpace y))) = dropWhile isSpace y"
    unfolding trim_def by (rule rev_dropWhile_rev)
  then show ?thesis by (simp only: takeWhile_dropWhile_id)
qed

lemma trim_last: "rev (trim y) = a # r \<Longrightarrow> \<not> isSpace a"
  unfolding trim_def rev_rev_ident by (rule dropWhile_head)

lemma trim_first: assumes "trim y = a # r" shows "\<not> isSpace a"
proof -
  have "trim y @ rev (takeWhile isSpace (rev (dropWhile isSpace y))) = dropWhile isSpace y"
    unfolding trim_def by (rule rev_dropWhile_rev)
  then have "dropWhile isSpace y = a # (r @ rev (takeWhile isSpace (rev (dropWhile isSpace y))))"
    unfolding assms by simp
  then show ?thesis by (rule dropWhile_head)
qed

lemma formatText_whitespace:
  "CHR 0x0A \<notin> set (formatText x) \<and>
   (case formatText x of [] \<Rightarrow> True | c # _ \<Rightarrow> \<not> isSpace c) \<and>
   (case rev (formatText x) of [] \<Rightarrow> True | c # _ \<Rightarrow> \<not> isSpace c) \<and>
   noDoubleSpace (formatText x)"
proof -
  define y where "y = replaceSpaces (replaceApostrophes (replaceOther (replaceNewlines (toLowerCase x))))"
  have f: "formatText x = trim y" by (simp add: formatText_def y_def)
  obtain pre post where sp: "pre @ trim y @ post = y" using trim_middle by blast
  have "set (pre @ trim y @ post) = set y" by (simp only: sp)
  then have sub: "set (trim y) \<subseteq> set y" by auto
  have nl: "CHR 0x0A \<notin> set (trim y)"
  proof
    assume "CHR 0x0A \<in> set (trim y)"
    with sub have "CHR 0x0A \<in> set (replaceSpaces (replaceApostrophes (replaceOther (replaceNewlines (toLowerCase x)))))"
      by (auto simp: y_def)
    moreover have "isSpace (CHR 0x0A)" by (simp add: isSpace_def)
    ultimately have "CHR 0x0A = CHR '' ''" by (rule replaceSpaces_chars)
    then show False by simp
  qed
  have "noDoubleSpace y" unfolding y_def by (rule replaceSpaces_noDoubleSpace)
  then have "noDoubleSpace (pre @ (trim y @ post))" by (simp only: sp)
  then have "noDoubleSpace (trim y @ post)" by (blast dest: noDoubleSpace_append)
  then have nds: "noDoubleSpace (trim y)" by (blast dest: noDoubleSpace_append)
  have h: "case trim y of [] \<Rightarrow> True | c # _ \<Rightarrow> \<not> isSpace c"
    by (auto split: list.splits dest: trim_first)
  have l: "case rev (trim y) of [] \<Rightarrow> True | c # _ \<Rightarrow> \<not> isSpace c"
  proof (cases "rev (trim y)")
    case Nil
    then show ?thesis by simp
  next
    case (Cons a r)
    then have "\<not> isSpace a" by (rule trim_last)
    with Cons show ?thesis by simp
  qed
  from nl h l nds show ?thesis unfolding f by blast
qed

text \<open>
  Claim C6. The claim is that the output of \<^verbatim>\<open>formatText\<close> never holds an apostrophe standing
  alone between white space. The replacement of \<^verbatim>\<open>/\s+'\s+/g\<close> consumes the white space
  behind an apostrophe, so a second apostrophe that follows has no white space left in
  front of it and stays: on \<^verbatim>\<open>a ' ' b\<close> the result is \<^verbatim>\<open>a ' b\<close>. A second pass removes it,
  so \<^verbatim>\<open>formatText\<close> is not idempotent on this input either. The white space parts of
  the invariant hold for every input (\<open>formatText_whitespace\<close>).
\<close>

theorem stray_apostrophe_survives:
  "formatText ''a ' ' b'' = ''a ' b'' \<and>
   noDanglingApostrophe (formatText ''a ' ' b'') = False \<and>
   formatText (formatText ''a ' ' b'') = ''a b''"
  by code_simp

subsection \<open>The coordinator\<close>

lemma main_runs_selected_mode:
  "snd (main fs stdin a M) =
     (case selectMode a M of
        Inl e \<Rightarrow> Inl (Rejected e)
      | Inr m \<Rightarrow> snd (runMode fs stdin (case argv_files a of Some p \<Rightarrow> p | None \<Rightarrow> []) m))"
  by (auto simp: main_def selectMode_def runMode_def Let_def
      split: option.splits prod.splits sum.splits)

lemma truthy_iff: "truthy t = (\<exists>x. t = Number x \<and> x \<noteq> 0)"
  by (cases t) auto

lemma Math_round_zero: "Math_round 0 = 0"
  by (simp add: Math_round_def floor_eq_iff)

text \<open>
  Claim C5, as the specification states it, has a worker count equal to 1 select
  Single-file-as-one mode. \<^verbatim>\<open>main\<close> tests \<^verbatim>\<open>!!argv.threads\<close>, which holds for 1: with files
  and \<^verbatim>\<open>--threads 1\<close> it runs \<^verbatim>\<open>processFilesInParallel\<close> with one worker and returns one
  list per file, not the one list over all files of \<^verbatim>\<open>processFilesAsOne\<close>.
\<close>

theorem mode_selection_counterexample:
  "selectMode \<lparr>argv_positional = [], argv_files = Some [''a.txt'', ''b.txt''],
               argv_threads = Number 1\<rparr> 8 = Inr (MultiFileAsN 1) \<and>
   selectMode \<lparr>argv_positional = [], argv_files = Some [''a.txt'', ''b.txt''],
               argv_threads = Number 1\<rparr> 8 \<noteq> Inr SingleFileAsOne \<and>
   snd (main (map_of [(''a.txt'', ''a b c''), (''b.txt'', ''d e f'')]) []
          \<lparr>argv_positional = [], argv_files = Some [''a.txt'', ''b.txt''],
           argv_threads = Number 1\<rparr> 8) =
     Inr [\<lparr>source_file = FileName ''a.txt'', sequences = [(''a b c'', 1)]\<rparr>,
          \<lparr>source_file = FileName ''b.txt'', sequences = [(''d e f'', 1)]\<rparr>] \<and>
   snd (processFilesAsOne (map_of [(''a.txt'', ''a b c''), (''b.txt'', ''d e f'')])
          [''a.txt'', ''b.txt'']) =
     Inr [\<lparr>source_file = FileList [''a.txt'', ''b.txt''],
            sequences = [(''a b c'', 1), (''b c d'', 1), (''c d e'', 1), (''d e f'', 1)]\<rparr>]"
proof -
  have a: "selectMode \<lparr>argv_positional = [], argv_files = Some [''a.txt'', ''b.txt''],
               argv_threads = Number 1\<rparr> 8 = Inr (MultiFileAsN 1)"
    by (simp add: selectMode_def THREAD_COUNT_def Math_round_def floor_eq_iff)
  have b: "snd (main (map_of [(''a.txt'', ''a b c''), (''b.txt'', ''d e f'')]) []
          \<lparr>argv_positional = [], argv_files = Some [''a.txt'', ''b.txt''],
           argv_threads = Number 1\<rparr> 8) =
     Inr [\<lparr>source_file = FileName ''a.txt'', sequences = [(''a b c'', 1)]\<rparr>,
          \<lparr>source_file = FileName ''b.txt'', sequences = [(''d e f'', 1)]\<rparr>]"
    by code_simp
  have c: "snd (processFilesAsOne (map_of [(''a.txt'', ''a b c''), (''b.txt'', ''d e f'')])
          [''a.txt'', ''b.txt'']) =
     Inr [\<lparr>source_file = FileList [''a.txt'', ''b.txt''],
            sequences = [(''a b c'', 1), (''b c d'', 1), (''c d e'', 1), (''d e f'', 1)]\<rparr>]"
    by code_simp
  from a b c show ?thesis by simp
qed

text \<open>
  Claim C5, amended. With a non-empty list of files and a numeric worker count that rounds
  to 1 or more (so also the count 1), Multi-file-as-N mode is selected, with the rounded
  count capped at \<^verbatim>\<open>MAX_THREADS\<close> as the number of workers. Single-file-as-one mode is
  selected exactly when a non-empty list of files comes with no worker count, or with one
  that is \<^verbatim>\<open>NaN\<close> or zero. Stream mode is selected exactly when the list of files is empty,
  or absent together with no positional input, whatever the worker count. Positional input
  without a list of files is the usage error.
\<close>

theorem mode_selection:
  "(argv_files a = Some paths \<and> paths \<noteq> [] \<and> argv_threads a = Number x \<and> 1 \<le> Math_round x \<longrightarrow>
      selectMode a M = Inr (MultiFileAsN (min (Math_round x) M))) \<and>
   (selectMode a M = Inr SingleFileAsOne) =
     (\<exists>ps. argv_files a = Some ps \<and> ps \<noteq> [] \<and>
        (argv_threads a = Undefined \<or> argv_threads a = NaN \<or> argv_threads a = Number 0)) \<and>
   (selectMode a M = Inr Stream) =
     (argv_files a = Some [] \<or> (argv_files a = None \<and> argv_positional a = [])) \<and>
   (selectMode a M = Inl UsageError) = (argv_positional a \<noteq> [] \<and> argv_files a = None)"
proof -
  have 1: "selectMode a M = Inr (MultiFileAsN (min (Math_round x) M))"
    if "argv_files a = Some paths" "paths \<noteq> []" "argv_threads a = Number x" "1 \<le> Math_round x"
  proof -
    from that(4) have "x \<noteq> 0" using Math_round_zero by auto
    with that show ?thesis by (simp add: selectMode_def THREAD_COUNT_def)
  qed
  have 2: "(selectMode a M = Inr SingleFileAsOne) =
     (\<exists>ps. argv_files a = Some ps \<and> ps \<noteq> [] \<and>
        (argv_threads a = Undefined \<or> argv_threads a = NaN \<or> argv_threads a = Number 0))"
    by (cases "argv_files a"; cases "argv_threads a") (auto simp: selectMode_def)
  have 3: "(selectMode a M = Inr Stream) =
     (argv_files a = Some [] \<or> (argv_files a = None \<and> argv_positional a = []))"
    by (cases "argv_files a") (auto simp: selectMode_def)
  have 4: "(selectMode a M = Inl UsageError) = (argv_positional a \<noteq> [] \<and> argv_files a = None)"
    by (auto simp: selectMode_def split: option.splits)
  from 1 2 3 4 show ?thesis by blast
qed

theorem mode_selection_witness:
  "1 \<le> Math_round 1 \<and>
   selectMode \<lparr>argv_positional = [], argv_files = Some [''a.txt'', ''b.txt''],
               argv_threads = Number 1\<rparr> 8 = Inr (MultiFileAsN 1) \<and>
   selectMode \<lparr>argv_positional = [], argv_files = Some [''a.txt'', ''b.txt''],
               argv_threads = Undefined\<rparr> 8 = Inr SingleFileAsOne \<and>
   selectMode \<lparr>argv_positional = [], argv_files = None, argv_threads = Number 4\<rparr> 8 = Inr Stream"
proof -
  have r: "Math_round 1 = 1" by (simp add: Math_round_def floor_eq_iff)
  have a: "selectMode \<lparr>argv_positional = [], argv_files = Some [''a.txt'', ''b.txt''],
               argv_threads = Number 1\<rparr> 8 = Inr (MultiFileAsN 1)"
    using mode_selection[of "\<lparr>argv_positional = [], argv_files = Some [''a.txt'', ''b.txt''],
               argv_threads = Number 1\<rparr>" "[''a.txt'', ''b.txt'']" 1 8] r
    by simp
  have b: "selectMode \<lparr>argv_positional = [], argv_files = Some [''a.txt'', ''b.txt''],
               argv_threads = Undefined\<rparr> 8 = Inr SingleFileAsOne"
    using mode_selection[of "\<lparr>argv_positional = [], argv_files = Some [''a.txt'', ''b.txt''],
               argv_threads = Undefined\<rparr>" "[]" 0 8]
    by simp
  have c: "selectMode \<lparr>argv_positional = [], argv_files = None, argv_threads = Number 4\<rparr> 8
             = Inr Stream"
    using mode_selection[of "\<lparr>argv_positional = [], argv_files = None,
               argv_threads = Number 4\<rparr>" "[]" 0 8]
    by simp
  from r a b c show ?thesis by simp
qed

text \<open>
  Claim C8. The claim is that the text handed to the trigram counter in Single-file-as-one
  mode and in Stream mode is Normalized Text even when a file or line normalizes to the
  empty string. Each unit is appended behind one space and only the ends are trimmed, so
  an empty unit between two others leaves two spaces in a row, \<^verbatim>\<open>split(" ")\<close> yields an
  empty token there, and the table counts sequences that contain the empty token.
\<close>

theorem empty_unit_double_space:
  "processStdIn [''a b'', '''', ''c d''] = ''a b  c d'' \<and>
   noDoubleSpace (processStdIn [''a b'', '''', ''c d'']) = False \<and>
   split CHR '' '' (processStdIn [''a b'', '''', ''c d'']) = [''a'', ''b'', '''', ''c'', ''d''] \<and>
   generateSequenceMap (processStdIn [''a b'', '''', ''c d'']) =
     [(''a b '', 1), (''b  c'', 1), ('' c d'', 1)] \<and>
   filesAsOneLoop (map_of [(''a.txt'', ''a b''), (''b.txt'', ''''), (''c.txt'', ''c d'')])
     [''a.txt'', ''b.txt'', ''c.txt''] [] [] = Inr ('' a b  c d'', []) \<and>
   trim '' a b  c d'' = ''a b  c d'' \<and>
   processFilesAsOne (map_of [(''a.txt'', ''a b''), (''b.txt'', ''''), (''c.txt'', ''c d'')])
     [''a.txt'', ''b.txt'', ''c.txt''] =
     ([], Inr [\<lparr>source_file = FileList [''a.txt'', ''b.txt'', ''c.txt''],
                  sequences = [(''a b '', 1), (''b  c'', 1), ('' c d'', 1)]\<rparr>])"
  by code_simp

text \<open>
  A read that fails inside a worker, in general: whenever a path with the suffix
  \<^verbatim>\<open>.txt\<close> cannot be read and at least one worker is started, the promise of
  \<^verbatim>\<open>createWorker\<close> for its chunk never settles, so neither does the promise of \<^verbatim>\<open>main\<close>,
  and the process ends with status 0.
\<close>

lemma workerLoop_failed_read:
  "p \<in> set paths \<Longrightarrow> endsWith p ''.txt'' \<Longrightarrow> fs p = None \<Longrightarrow>
   \<exists>q. workerLoop fs paths invalid seqs = Inl (ReadError q)"
proof (induction paths arbitrary: invalid seqs)
  case Nil
  then show ?case by simp
next
  case (Cons f rest)
  show ?case
  proof (cases "f = p")
    case True
    with Cons.prems show ?thesis by simp
  next
    case False
    with Cons.prems have "p \<in> set rest" by simp
    from Cons.IH[OF this Cons.prems(2,3)] show ?thesis
      by (auto simp: Let_def split: option.splits)
  qed
qed

lemma createWorker_failed_read:
  assumes "p \<in> set chunk" "endsWith p ''.txt''" "fs p = None"
  shows "createWorker fs chunk = Inl Pending"
proof -
  obtain q where "workerLoop fs chunk [] [] = Inl (ReadError q)"
    using workerLoop_failed_read[of p chunk fs "[]" "[]"] assms by blast
  then show ?thesis
    by (simp add: createWorker_def workerScript_def processAndAnalyzeFiles_def)
qed

lemma createWorker_not_rejected: "createWorker fs chunk \<noteq> Inl (Rejected e)"
  by (simp add: createWorker_def split: worker_end.splits)

lemma promiseAll_pending:
  "Inl Pending \<in> set ps \<Longrightarrow> (\<forall>p \<in> set ps. \<forall>e. p \<noteq> Inl (Rejected e)) \<Longrightarrow>
   promiseAll ps = Inl Pending"
proof (induction ps)
  case Nil
  then show ?case by simp
next
  case (Cons p ps)
  have nr: "\<forall>e. promiseAll ps \<noteq> Inl (Rejected e)" if "\<forall>p \<in> set ps. \<forall>e. p \<noteq> Inl (Rejected e)" for ps :: "(failure + 'a) list"
    using that by (induction ps) (auto split: sum.splits failure.splits)
  show ?case
  proof (cases p)
    case (Inl f)
    with Cons.prems nr[of ps] show ?thesis
      by (cases f) (auto split: sum.splits failure.splits)
  next
    case (Inr x)
    with Cons.prems have "Inl Pending \<in> set ps" by auto
    with Cons Inr show ?thesis by simp
  qed
qed

lemma processFilesInParallel_failed_read:
  assumes "1 \<le> T" "p \<in> set paths" "endsWith p ''.txt''" "fs p = None"
  shows "processFilesInParallel fs paths T = ([], Inl Pending)"
proof -
  let ?chunks = "splitArrayToNChunks paths T"
  have "concat ?chunks = paths"
    using assms(1) splitLoop_concat[of 0 T "[]" 0 paths] by (simp add: splitArrayToNChunks_def)
  with assms(2) obtain chunk where ch: "chunk \<in> set ?chunks" "p \<in> set chunk"
    by (metis UN_E set_concat)
  then have "createWorker fs chunk = Inl Pending"
    using assms(3,4) by (intro createWorker_failed_read) simp_all
  with ch(1) have "Inl Pending \<in> set (map (createWorker fs) ?chunks)"
    by (metis image_eqI set_map)
  moreover have "\<forall>q \<in> set (map (createWorker fs) ?chunks). \<forall>e. q \<noteq> Inl (Rejected e)"
    using createWorker_not_rejected by auto
  ultimately have "promiseAll (map (createWorker fs) ?chunks) = Inl Pending"
    by (rule promiseAll_pending)
  then show ?thesis by (simp add: processFilesInParallel_def)
qed

lemma main_failed_read_in_worker:
  assumes "argv_files a = Some paths" "argv_threads a = Number x" "1 \<le> Math_round x" "1 \<le> M"
    and "p \<in> set paths" "endsWith p ''.txt''" "fs p = None"
  shows "snd (main fs stdin a M) = Inl Pending \<and> processExitStatus (snd (main fs stdin a M)) = 0"
proof -
  have x: "x \<noteq> 0" using assms(3) by (auto simp: Math_round_def floor_eq_iff)
  then have tc: "THREAD_COUNT (Number x) M = min (Math_round x) M" by (simp add: THREAD_COUNT_def)
  have "1 \<le> min (Math_round x) M" using assms(3,4) by simp
  then have "processFilesInParallel fs paths (min (Math_round x) M) = ([], Inl Pending)"
    using assms(5,6,7) by (rule processFilesInParallel_failed_read)
  moreover have "paths \<noteq> []" using assms(5) by auto
  ultimately have "snd (main fs stdin a M) = Inl Pending"
    using assms(1,2) x by (simp add: main_def tc Let_def)
  then show ?thesis by (simp add: processExitStatus_def)
qed

text \<open>
  Claim C9. The claim is that in Multi-file-as-N mode a failed read of a \<^verbatim>\<open>.txt\<close> file
  reaches the top level, aborts the sibling workers and ends the process with a non-zero
  status. With \<^verbatim>\<open>-f a.txt missing.txt -t 2\<close>, where \<^verbatim>\<open>missing.txt\<close> cannot be read, the
  worker for \<^verbatim>\<open>missing.txt\<close> ends its own thread with exit code 1 and posts nothing, the
  worker for \<^verbatim>\<open>a.txt\<close> runs to its end and posts its result, the promise of \<^verbatim>\<open>main\<close> never
  settles, nothing is logged, and the process ends with status 0. Without \<^verbatim>\<open>-t\<close> the same
  files make \<^verbatim>\<open>main\<close> reject with the read error and the process end with status 1.
\<close>

theorem worker_read_failure_exits_zero:
  "splitArrayToNChunks [''a.txt'', ''missing.txt''] 2 = [[''a.txt''], [''missing.txt'']] \<and>
   workerScript (map_of [(''a.txt'', ''one two three'')]) [''missing.txt''] =
     Exited (ReadError ''missing.txt'') 1 \<and>
   workerScript (map_of [(''a.txt'', ''one two three'')]) [''a.txt''] =
     Posted \<lparr>invalidFiles = [],
             fileSequences = [\<lparr>source_file = FileName ''a.txt'',
                               sequences = [(''one two three'', 1)]\<rparr>]\<rparr> \<and>
   createWorker (map_of [(''a.txt'', ''one two three'')]) [''missing.txt''] = Inl Pending \<and>
   main (map_of [(''a.txt'', ''one two three'')]) []
     \<lparr>argv_positional = [], argv_files = Some [''a.txt'', ''missing.txt''],
      argv_threads = Number 2\<rparr> 8 = ([], Inl Pending) \<and>
   processExitStatus (snd (main (map_of [(''a.txt'', ''one two three'')]) []
     \<lparr>argv_positional = [], argv_files = Some [''a.txt'', ''missing.txt''],
      argv_threads = Number 2\<rparr> 8)) = 0 \<and>
   main (map_of [(''a.txt'', ''one two three'')]) []
     \<lparr>argv_positional = [], argv_files = Some [''a.txt'', ''missing.txt''],
      argv_threads = Undefined\<rparr> 8 = ([], Inl (Rejected (ReadError ''missing.txt''))) \<and>
   processExitStatus (snd (main (map_of [(''a.txt'', ''one two three'')]) []
     \<lparr>argv_positional = [], argv_files = Some [''a.txt'', ''missing.txt''],
      argv_threads = Undefined\<rparr> 8)) = 1"
proof -
  have a: "splitArrayToNChunks [''a.txt'', ''missing.txt''] 2 = [[''a.txt''], [''missing.txt'']]"
    by code_simp
  have b: "workerScript (map_of [(''a.txt'', ''one two three'')]) [''missing.txt''] =
     Exited (ReadError ''missing.txt'') 1"
    by code_simp
  have c: "workerScript (map_of [(''a.txt'', ''one two three'')]) [''a.txt''] =
     Posted \<lparr>invalidFiles = [],
             fileSequences = [\<lparr>source_file = FileName ''a.txt'',
                               sequences = [(''one two three'', 1)]\<rparr>]\<rparr>"
    by code_simp
  have d: "createWorker (map_of [(''a.txt'', ''one two three'')]) [''missing.txt''] = Inl Pending"
    unfolding createWorker_def b by simp
  have e: "main (map_of [(''a.txt'', ''one two three'')]) []
     \<lparr>argv_positional = [], argv_files = Some [''a.txt'', ''missing.txt''],
      argv_threads = Number 2\<rparr> 8 = ([], Inl Pending)"
    by code_simp
  have f: "main (map_of [(''a.txt'', ''one two three'')]) []
     \<lparr>argv_positional = [], argv_files = Some [''a.txt'', ''missing.txt''],
      argv_threads = Undefined\<rparr> 8 = ([], Inl (Rejected (ReadError ''missing.txt'')))"
    by code_simp
  from a b c d e f show ?thesis by (simp add: processExitStatus_def)
qed

text \<open>
  Claim C10. There is a numeric worker count that rounds to zero, namely 0.4, for which,
  with any non-empty list of files, Multi-file-as-N mode is selected with the effective
  worker count 0: the partitioner returns no chunk, no file is read, and the run ends with
  no result, no report of invalid files and nothing else printed.
\<close>

theorem zero_workers:
  assumes "argv_files a = Some paths" "paths \<noteq> []" "argv_threads a = Number (2 / 5)" "1 \<le> M"
  shows "selectMode a M = Inr (MultiFileAsN 0) \<and>
         splitArrayToNChunks paths 0 = [] \<and>
         processFilesInParallel fs paths 0 = ([], Inr []) \<and>
         main fs stdin a M = ([], Inr [])"
proof -
  have r: "Math_round (2 / 5) = 0" by (simp add: Math_round_def floor_eq_iff)
  have tc: "THREAD_COUNT (Number (2 / 5)) M = 0"
    using assms(4) by (simp add: THREAD_COUNT_def r)
  have sel: "selectMode a M = Inr (MultiFileAsN 0)"
    using assms by (simp add: selectMode_def tc)
  have sp: "splitArrayToNChunks paths 0 = []"
    by (simp add: splitArrayToNChunks_def splitLoop_stop)
  have par: "processFilesInParallel fs paths 0 = ([], Inr [])"
    by (simp add: processFilesInParallel_def sp)
  have "main fs stdin a M = ([], Inr [])"
    using assms by (simp add: main_def tc par logSequences_def)
  with sel sp par show ?thesis by simp
qed

theorem zero_workers_witness:
  "argv_files \<lparr>argv_positional = [], argv_files = Some [''a.txt'', ''notes.js''],
               argv_threads = Number (2 / 5)\<rparr> = Some [''a.txt'', ''notes.js''] \<and>
   [''a.txt'', ''notes.js''] \<noteq> [] \<and> (1::int) \<le> 8 \<and>
   main (map_of [(''a.txt'', ''one two three'')]) []
     \<lparr>argv_positional = [], argv_files = Some [''a.txt'', ''notes.js''],
      argv_threads = Number (2 / 5)\<rparr> 8 = ([], Inr [])"
  using zero_workers[of "\<lparr>argv_positional = [], argv_files = Some [''a.txt'', ''notes.js''],
      argv_threads = Number (2 / 5)\<rparr>" "[''a.txt'', ''notes.js'']" 8
      "map_of [(''a.txt'', ''one two three'')]" "[]"]
  by simp


end
